theory Spec2Isabelle
  imports Main "HOL-Library.Word"
begin

unbundle bit_operations_syntax

section \<open>Looking up a resource's schema by its GroupVersionKind\<close>

text \<open>
  The OpenAPI helper (package \<open>openapi\<close>): \<open>LookupProtoSchema\<close> and
  \<open>parseGroupVersionKind\<close>. A schema's extensions are a Go
  \<open>map[string]interface{}\<close> decoded from YAML, so an extension value is a dynamically
  typed tree. The type assertions of the source are case distinctions on this tree.
\<close>

datatype iface =
    INil
  | IBool bool
  | IInt int
  | IString string
  | IList "iface list"
  | IMap "(iface \<times> iface) list"

record GroupVersionKind =
  Group :: string
  Version :: string
  Kind :: string

text \<open>
  \<open>proto.Schema\<close> is an interface; the lookup only calls \<open>GetExtensions\<close>. Whatever
  else a schema holds is the field \<open>body\<close>.
\<close>

record 'a Schema =
  GetExtensions :: "(string \<times> iface) list"
  body :: 'a

text \<open>\<open>proto.Models\<close>: \<open>LookupModel\<close> returns \<open>nil\<close> (here \<open>None\<close>) for a name it cannot resolve.\<close>

record 'a Models =
  ListModels :: "string list"
  LookupModel :: "string \<Rightarrow> 'a Schema option"

datatype lookup_error =
    ModelCannotBeLookedUp
  | NoModelFound GroupVersionKind

definition groupVersionKindExtensionKey :: string where
  "groupVersionKindExtensionKey = ''x-kubernetes-group-version-kind''"

text \<open>\<open>m[key].(string)\<close>: the value under a string key, if it is a string.\<close>

definition string_field :: "(iface \<times> iface) list \<Rightarrow> string \<Rightarrow> string option" where
  "string_field gvkMap key =
     (case map_of gvkMap (IString key) of
        Some (IString s) \<Rightarrow> Some s
      | _ \<Rightarrow> None)"

text \<open>
  One pass of the loop body of \<open>parseGroupVersionKind\<close>: \<open>None\<close> is \<open>continue\<close>,
  \<open>Some\<close> is the triple that gets appended.
\<close>

definition gvk_of_entry :: "iface \<Rightarrow> GroupVersionKind option" where
  "gvk_of_entry gvk =
     (case gvk of
        IMap gvkMap \<Rightarrow>
          (case string_field gvkMap ''group'' of
             None \<Rightarrow> None
           | Some g \<Rightarrow>
               (case string_field gvkMap ''version'' of
                  None \<Rightarrow> None
                | Some v \<Rightarrow>
                    (case string_field gvkMap ''kind'' of
                       None \<Rightarrow> None
                     | Some k \<Rightarrow> Some \<lparr>Group = g, Version = v, Kind = k\<rparr>)))
      | _ \<Rightarrow> None)"

fun gvk_loop :: "iface list \<Rightarrow> GroupVersionKind list \<Rightarrow> GroupVersionKind list" where
  "gvk_loop [] gvkListResult = gvkListResult"
| "gvk_loop (gvk # rest) gvkListResult =
     (case gvk_of_entry gvk of
        None \<Rightarrow> gvk_loop rest gvkListResult
      | Some t \<Rightarrow> gvk_loop rest (gvkListResult @ [t]))"

definition parseGroupVersionKind :: "'a Schema \<Rightarrow> GroupVersionKind list" where
  "parseGroupVersionKind s =
     (case map_of (GetExtensions s) groupVersionKindExtensionKey of
        None \<Rightarrow> []
      | Some gvkExtension \<Rightarrow>
          (case gvkExtension of
             IList gvkList \<Rightarrow> gvk_loop gvkList []
           | _ \<Rightarrow> []))"

text \<open>The inner loop of \<open>LookupProtoSchema\<close>: is \<open>gvk\<close> one of the model's triples?\<close>

fun has_gvk :: "GroupVersionKind list \<Rightarrow> GroupVersionKind \<Rightarrow> bool" where
  "has_gvk [] gvk = False"
| "has_gvk (modelGVK # rest) gvk = (if modelGVK = gvk then True else has_gvk rest gvk)"

fun lookup_models :: "'a Models \<Rightarrow> GroupVersionKind \<Rightarrow> string list \<Rightarrow> lookup_error + 'a Schema" where
  "lookup_models models gvk [] = Inl (NoModelFound gvk)"
| "lookup_models models gvk (modelName # rest) =
     (case LookupModel models modelName of
        None \<Rightarrow> Inl ModelCannotBeLookedUp
      | Some model \<Rightarrow>
          if has_gvk (parseGroupVersionKind model) gvk then Inr model
          else lookup_models models gvk rest)"

definition LookupProtoSchema :: "'a Models \<Rightarrow> GroupVersionKind \<Rightarrow> lookup_error + 'a Schema" where
  "LookupProtoSchema models gvk = lookup_models models gvk (ListModels models)"

text \<open>
  A listed name decides nothing when it resolves to a model that does not carry the
  triple: the loop moves on to the next name.
\<close>

definition passes_over :: "'a Models \<Rightarrow> GroupVersionKind \<Rightarrow> string \<Rightarrow> bool" where
  "passes_over models gvk n =
     (case LookupModel models n of
        None \<Rightarrow> False
      | Some model \<Rightarrow> gvk \<notin> set (parseGroupVersionKind model))"

subsection \<open>Properties of the lookup\<close>

lemma gvk_loop_acc: "gvk_loop l acc = acc @ List.map_filter gvk_of_entry l"
  by (induction l arbitrary: acc) (simp_all split: option.splits)

lemma gvk_loop_map_filter: "gvk_loop l [] = List.map_filter gvk_of_entry l"
  by (simp add: gvk_loop_acc)

lemma has_gvk_iff: "has_gvk l gvk \<longleftrightarrow> gvk \<in> set l"
  by (induction l) auto

lemma lookup_models_skip:
  "list_all (passes_over models gvk) pre \<Longrightarrow>
   lookup_models models gvk (pre @ rest) = lookup_models models gvk rest"
  by (induction pre) (auto simp: passes_over_def has_gvk_iff split: option.splits)

lemma lookup_models_none:
  "list_all (passes_over models gvk) ns \<Longrightarrow> lookup_models models gvk ns = Inl (NoModelFound gvk)"
  using lookup_models_skip [of models gvk ns "[]"] by simp

lemma lookup_models_no_match:
  "(\<And>n model. n \<in> set ns \<Longrightarrow> LookupModel models n = Some model \<Longrightarrow>
      gvk \<notin> set (parseGroupVersionKind model)) \<Longrightarrow>
   isl (lookup_models models gvk ns)"
  by (induction ns) (auto simp: has_gvk_iff split: option.splits)

lemma lookup_models_result:
  "lookup_models models gvk ns = Inr model \<Longrightarrow>
   \<exists>pre n post. ns = pre @ n # post \<and> list_all (passes_over models gvk) pre \<and>
     LookupModel models n = Some model \<and> gvk \<in> set (parseGroupVersionKind model)"
proof (induction ns)
  case Nil
  then show ?case by simp
next
  case (Cons a ns)
  show ?case
  proof (cases "LookupModel models a")
    case None
    with Cons.prems show ?thesis by simp
  next
    case (Some m)
    show ?thesis
    proof (cases "gvk \<in> set (parseGroupVersionKind m)")
      case True
      with Some Cons.prems have "model = m" by (simp add: has_gvk_iff)
      with Some True have "a # ns = [] @ a # ns \<and> list_all (passes_over models gvk) [] \<and>
        LookupModel models a = Some model \<and> gvk \<in> set (parseGroupVersionKind model)"
        by simp
      then show ?thesis by blast
    next
      case False
      with Some Cons.prems have "lookup_models models gvk ns = Inr model"
        by (simp add: has_gvk_iff)
      from Cons.IH [OF this] obtain pre n post where
        h: "ns = pre @ n # post" "list_all (passes_over models gvk) pre"
           "LookupModel models n = Some model" "gvk \<in> set (parseGroupVersionKind model)"
        by blast
      from Some False have "passes_over models gvk a" by (simp add: passes_over_def)
      with h have "a # ns = (a # pre) @ n # post \<and> list_all (passes_over models gvk) (a # pre) \<and>
        LookupModel models n = Some model \<and> gvk \<in> set (parseGroupVersionKind model)"
        by simp
      then show ?thesis by blast
    qed
  qed
qed

lemma gvk_of_entry_Some:
  "gvk_of_entry e = Some t \<longleftrightarrow>
   (\<exists>gvkMap. e = IMap gvkMap \<and>
      map_of gvkMap (IString ''group'') = Some (IString (Group t)) \<and>
      map_of gvkMap (IString ''version'') = Some (IString (Version t)) \<and>
      map_of gvkMap (IString ''kind'') = Some (IString (Kind t)) \<and>
      GroupVersionKind.more t = ())"
  by (cases t) (auto simp: gvk_of_entry_def string_field_def split: iface.splits option.splits)


subsection \<open>Example model sets\<close>

definition deployment_gvk :: GroupVersionKind where
  "deployment_gvk = \<lparr>Group = ''apps'', Version = ''v1'', Kind = ''Deployment''\<rparr>"

definition gvk_entry :: "string \<Rightarrow> string \<Rightarrow> string \<Rightarrow> iface" where
  "gvk_entry g v k =
     IMap [(IString ''group'', IString g), (IString ''version'', IString v),
           (IString ''kind'', IString k)]"

text \<open>A model without the extension, and one whose extension is not a list.\<close>

definition plain_model :: "unit Schema" where
  "plain_model = \<lparr>GetExtensions = [(''x-kubernetes-patch-strategy'', IString ''merge'')], body = ()\<rparr>"

definition odd_model :: "unit Schema" where
  "odd_model = \<lparr>GetExtensions = [(''x-kubernetes-group-version-kind'', IString ''apps/v1'')], body = ()\<rparr>"

text \<open>
  A model whose list holds a string, a map without \<open>kind\<close>, a map whose \<open>version\<close>
  is a number, and two well-formed triples.
\<close>

definition deployment_model :: "unit Schema" where
  "deployment_model =
     \<lparr>GetExtensions =
        [(''x-kubernetes-group-version-kind'',
          IList [IString ''apps/v1'',
                 IMap [(IString ''group'', IString ''apps''), (IString ''version'', IString ''v1'')],
                 IMap [(IString ''group'', IString ''apps''), (IString ''version'', IInt 1),
                       (IString ''kind'', IString ''Deployment'')],
                 gvk_entry ''extensions'' ''v1beta1'' ''Deployment'',
                 gvk_entry ''apps'' ''v1'' ''Deployment''])],
      body = ()\<rparr>"

definition example_lookup :: "string \<Rightarrow> unit Schema option" where
  "example_lookup n =
     (if n = ''plain'' then Some plain_model
      else if n = ''odd'' then Some odd_model
      else if n = ''deployment'' then Some deployment_model
      else None)"

definition models_found :: "unit Models" where
  "models_found = \<lparr>ListModels = [''plain'', ''odd'', ''deployment'', ''missing''],
                    LookupModel = example_lookup\<rparr>"

definition models_dangling :: "unit Models" where
  "models_dangling = \<lparr>ListModels = [''plain'', ''missing'', ''deployment''],
                       LookupModel = example_lookup\<rparr>"

definition models_unmatched :: "unit Models" where
  "models_unmatched = \<lparr>ListModels = [''plain'', ''odd''], LookupModel = example_lookup\<rparr>"

lemma parse_plain_model: "parseGroupVersionKind plain_model = []"
  by (simp add: parseGroupVersionKind_def plain_model_def groupVersionKindExtensionKey_def)

lemma parse_odd_model: "parseGroupVersionKind odd_model = []"
  by (simp add: parseGroupVersionKind_def odd_model_def groupVersionKindExtensionKey_def)

lemma parse_deployment_model:
  "parseGroupVersionKind deployment_model =
     [\<lparr>Group = ''extensions'', Version = ''v1beta1'', Kind = ''Deployment''\<rparr>, deployment_gvk]"
  by (simp add: parseGroupVersionKind_def deployment_model_def groupVersionKindExtensionKey_def
      gvk_of_entry_def string_field_def gvk_entry_def deployment_gvk_def)

lemma passes_over_examples:
  "passes_over models_found deployment_gvk ''plain''"
  "passes_over models_found deployment_gvk ''odd''"
  "passes_over models_dangling deployment_gvk ''plain''"
  "passes_over models_unmatched deployment_gvk ''plain''"
  "passes_over models_unmatched deployment_gvk ''odd''"
  by (simp_all add: passes_over_def models_found_def models_dangling_def models_unmatched_def
      example_lookup_def parse_plain_model parse_odd_model)


subsection \<open>Claim C9\<close>

text \<open>
  Claim C9, as the code has it. \<open>LookupProtoSchema\<close> walks the listed names in order and
  the first name that is not passed over decides the result:
  \<^item> if that name resolves to a model carrying \<open>gvk\<close>, this model is returned (so a result
    is always the first listed model whose extension parses to a list containing \<open>gvk\<close>,
    and every name listed before it resolves to a model without the triple);
  \<^item> if that name resolves to \<open>nil\<close>, the lookup fails, whatever is listed after it;
  \<^item> if every listed name is passed over, the lookup fails with the "no model found" error;
  \<^item> if no listed model carries the triple, the lookup fails.
  \<open>parseGroupVersionKind\<close> returns the empty list when the extension is absent or is not a
  list; on a list it keeps, in order, exactly the entries that are maps with string
  \<open>group\<close>, \<open>version\<close> and \<open>kind\<close> fields, and skips the others.
\<close>

theorem LookupProtoSchema_first_decisive:
  fixes models :: "'a Models" and s :: "'b Schema"
  shows
    "(ListModels models = pre @ n # post \<and> list_all (passes_over models gvk) pre \<and>
        LookupModel models n = Some model \<and> gvk \<in> set (parseGroupVersionKind model)
        \<longrightarrow> LookupProtoSchema models gvk = Inr model)
   \<and> (LookupProtoSchema models gvk = Inr model
        \<longrightarrow> (\<exists>pre n post. ListModels models = pre @ n # post \<and>
               list_all (passes_over models gvk) pre \<and>
               LookupModel models n = Some model \<and> gvk \<in> set (parseGroupVersionKind model)))
   \<and> (ListModels models = pre @ n # post \<and> list_all (passes_over models gvk) pre \<and>
        LookupModel models n = None
        \<longrightarrow> LookupProtoSchema models gvk = Inl ModelCannotBeLookedUp)
   \<and> (list_all (passes_over models gvk) (ListModels models)
        \<longrightarrow> LookupProtoSchema models gvk = Inl (NoModelFound gvk))
   \<and> ((\<forall>n \<in> set (ListModels models). \<forall>m. LookupModel models n = Some m
            \<longrightarrow> gvk \<notin> set (parseGroupVersionKind m))
        \<longrightarrow> isl (LookupProtoSchema models gvk))
   \<and> (map_of (GetExtensions s) groupVersionKindExtensionKey = None
        \<longrightarrow> parseGroupVersionKind s = [])
   \<and> (map_of (GetExtensions s) groupVersionKindExtensionKey = Some e \<and> (\<forall>l. e \<noteq> IList l)
        \<longrightarrow> parseGroupVersionKind s = [])
   \<and> (map_of (GetExtensions s) groupVersionKindExtensionKey = Some (IList l)
        \<longrightarrow> parseGroupVersionKind s = List.map_filter gvk_of_entry l)
   \<and> (gvk_of_entry x = Some t \<longleftrightarrow>
        (\<exists>gvkMap. x = IMap gvkMap \<and>
           map_of gvkMap (IString ''group'') = Some (IString (Group t)) \<and>
           map_of gvkMap (IString ''version'') = Some (IString (Version t)) \<and>
           map_of gvkMap (IString ''kind'') = Some (IString (Kind t)) \<and>
           GroupVersionKind.more t = ()))"
proof -
  have found: "LookupProtoSchema models gvk = Inr model"
    if "ListModels models = pre @ n # post" "list_all (passes_over models gvk) pre"
       "LookupModel models n = Some model" "gvk \<in> set (parseGroupVersionKind model)"
    using that lookup_models_skip [of models gvk pre "n # post"]
    by (simp add: LookupProtoSchema_def has_gvk_iff)
  have dangling: "LookupProtoSchema models gvk = Inl ModelCannotBeLookedUp"
    if "ListModels models = pre @ n # post" "list_all (passes_over models gvk) pre"
       "LookupModel models n = None"
    using that lookup_models_skip [of models gvk pre "n # post"]
    by (simp add: LookupProtoSchema_def)
  have unmatched: "LookupProtoSchema models gvk = Inl (NoModelFound gvk)"
    if "list_all (passes_over models gvk) (ListModels models)"
    using that by (simp add: LookupProtoSchema_def lookup_models_none)
  have no_match: "isl (LookupProtoSchema models gvk)"
    if "\<forall>n \<in> set (ListModels models). \<forall>m. LookupModel models n = Some m
          \<longrightarrow> gvk \<notin> set (parseGroupVersionKind m)"
    unfolding LookupProtoSchema_def using that by (intro lookup_models_no_match) blast
  have absent: "parseGroupVersionKind s = []"
    if "map_of (GetExtensions s) groupVersionKindExtensionKey = None"
    using that by (simp add: parseGroupVersionKind_def)
  have not_list: "parseGroupVersionKind s = []"
    if "map_of (GetExtensions s) groupVersionKindExtensionKey = Some e" "\<forall>l. e \<noteq> IList l"
    using that by (cases e) (simp_all add: parseGroupVersionKind_def)
  have is_list: "parseGroupVersionKind s = List.map_filter gvk_of_entry l"
    if "map_of (GetExtensions s) groupVersionKindExtensionKey = Some (IList l)"
    using that by (simp add: parseGroupVersionKind_def gvk_loop_map_filter)
  show ?thesis
    using found dangling unmatched no_match absent not_list is_list
      lookup_models_result [of models gvk "ListModels models" model]
      gvk_of_entry_Some [of x t]
    unfolding LookupProtoSchema_def [symmetric]
    by blast
qed

text \<open>
  The theorem at the example model sets: the deployment model is found behind two models
  that are passed over, although a later name does not resolve; a name that does not
  resolve ahead of the deployment model fails the lookup; and two models without the
  triple give the "no model found" error.
\<close>

theorem LookupProtoSchema_first_decisive_witness:
  "LookupProtoSchema models_found deployment_gvk = Inr deployment_model
   \<and> LookupProtoSchema models_dangling deployment_gvk = Inl ModelCannotBeLookedUp
   \<and> LookupProtoSchema models_unmatched deployment_gvk = Inl (NoModelFound deployment_gvk)
   \<and> parseGroupVersionKind plain_model = []
   \<and> parseGroupVersionKind odd_model = []
   \<and> gvk_of_entry (gvk_entry ''apps'' ''v1'' ''Deployment'') = Some deployment_gvk"
proof -
  note T = LookupProtoSchema_first_decisive
  have "ListModels models_found = [''plain'', ''odd''] @ ''deployment'' # [''missing'']
      \<and> list_all (passes_over models_found deployment_gvk) [''plain'', ''odd'']
      \<and> LookupModel models_found ''deployment'' = Some deployment_model
      \<and> deployment_gvk \<in> set (parseGroupVersionKind deployment_model)"
    by (simp add: passes_over_examples parse_deployment_model)
       (simp add: models_found_def example_lookup_def)
  from T [THEN conjunct1, THEN mp, OF this]
  have a: "LookupProtoSchema models_found deployment_gvk = Inr deployment_model" .
  have "ListModels models_dangling = [''plain''] @ ''missing'' # [''deployment'']
      \<and> list_all (passes_over models_dangling deployment_gvk) [''plain'']
      \<and> LookupModel models_dangling ''missing'' = None"
    by (simp add: passes_over_examples) (simp add: models_dangling_def example_lookup_def)
  from T [THEN conjunct2, THEN conjunct2, THEN conjunct1, THEN mp, OF this]
  have b: "LookupProtoSchema models_dangling deployment_gvk = Inl ModelCannotBeLookedUp" .
  have "list_all (passes_over models_unmatched deployment_gvk) (ListModels models_unmatched)"
    by (simp add: models_unmatched_def)
       (simp add: passes_over_examples [unfolded models_unmatched_def])
  from T [THEN conjunct2, THEN conjunct2, THEN conjunct2, THEN conjunct1, THEN mp, OF this]
  have c: "LookupProtoSchema models_unmatched deployment_gvk = Inl (NoModelFound deployment_gvk)" .
  have "map_of (GetExtensions plain_model) groupVersionKindExtensionKey = None"
    by (simp add: plain_model_def groupVersionKindExtensionKey_def)
  from T [THEN conjunct2, THEN conjunct2, THEN conjunct2, THEN conjunct2, THEN conjunct2,
      THEN conjunct1, THEN mp, OF this]
  have d: "parseGroupVersionKind plain_model = []" .
  have "map_of (GetExtensions odd_model) groupVersionKindExtensionKey = Some (IString ''apps/v1'')
      \<and> (\<forall>l. IString ''apps/v1'' \<noteq> IList l)"
    by (simp add: odd_model_def groupVersionKindExtensionKey_def)
  from T [THEN conjunct2, THEN conjunct2, THEN conjunct2, THEN conjunct2, THEN conjunct2,
      THEN conjunct2, THEN conjunct1, THEN mp, OF this]
  have e: "parseGroupVersionKind odd_model = []" .
  have "\<exists>gvkMap. gvk_entry ''apps'' ''v1'' ''Deployment'' = IMap gvkMap \<and>
           map_of gvkMap (IString ''group'') = Some (IString (Group deployment_gvk)) \<and>
           map_of gvkMap (IString ''version'') = Some (IString (Version deployment_gvk)) \<and>
           map_of gvkMap (IString ''kind'') = Some (IString (Kind deployment_gvk)) \<and>
           GroupVersionKind.more deployment_gvk = ()"
    by (simp add: gvk_entry_def deployment_gvk_def)
  from T [THEN conjunct2, THEN conjunct2, THEN conjunct2, THEN conjunct2, THEN conjunct2,
      THEN conjunct2, THEN conjunct2, THEN conjunct2, THEN iffD2, OF this]
  have f: "gvk_of_entry (gvk_entry ''apps'' ''v1'' ''Deployment'') = Some deployment_gvk" .
  from a b c d e f show ?thesis by simp
qed

text \<open>
  The claim as stated also promises an error whenever \<open>ListModels\<close> names a model that
  \<open>LookupModel\<close> resolves to \<open>nil\<close>. In \<open>models_found\<close> the name \<open>missing\<close> is listed and
  resolves to \<open>nil\<close>, yet the lookup returns the deployment model, which is listed
  before it.
\<close>

theorem LookupProtoSchema_dangling_name_counterexample:
  "''missing'' \<in> set (ListModels models_found)
   \<and> LookupModel models_found ''missing'' = None
   \<and> LookupProtoSchema models_found deployment_gvk = Inr deployment_model
   \<and> \<not> isl (LookupProtoSchema models_found deployment_gvk)"
  by (simp add: models_found_def example_lookup_def LookupProtoSchema_def has_gvk_iff
      parse_plain_model parse_odd_model parse_deployment_model)

section \<open>The protobuf encoding of RuntimeClass\<close>

text \<open>
  The generated protobuf code of \<open>k8s.io/api/node/v1beta1\<close>
  (\<open>generated.pb.go\<close>). Bytes are 8-bit words, \<open>uint64\<close> is a 64-bit word. A
  Go \<open>int\<close> is a 64-bit signed integer: it is modelled by an \<open>int\<close> that \<open>int64\<close>
  wraps back into range after every addition that can overflow, and by \<open>sint\<close> of a
  word where the source builds it with shifts. Slice indices are checked: an
  out-of-range read or write is the run-time panic of Go, here the error \<open>Panic\<close>.
\<close>

type_synonym byte = "8 word"

type_synonym uint64 = "64 word"

text \<open>
  The errors of the package, one constructor per \<open>fmt.Errorf\<close> or error variable, and
  \<open>ErrObjectMeta\<close> for whatever the ObjectMeta sub-message returns.
\<close>

datatype 'e pb_error =
    ErrInvalidLengthGenerated
  | ErrIntOverflowGenerated
  | ErrUnexpectedEOF
  | ErrEndGroupForNonGroup
  | ErrIllegalTag
  | ErrWrongWireType nat
  | ErrIllegalWireType
  | ErrObjectMeta 'e
  | Panic

definition int64 :: "int \<Rightarrow> int" where
  "int64 x = sint (word_of_int x :: 64 word)"

text \<open>
  \<open>math/bits.Len64\<close>: the minimum number of bits required to represent \<open>x\<close>, and 0 for
  \<open>x = 0\<close>.
\<close>

fun Len :: "nat \<Rightarrow> nat" where
  "Len n = (if n = 0 then 0 else Suc (Len (n div 2)))"

declare Len.simps [simp del]

definition Len64 :: "uint64 \<Rightarrow> int" where
  "Len64 x = int (Len (unat x))"

definition sovGenerated :: "uint64 \<Rightarrow> int" where
  "sovGenerated x = (Len64 (x OR 1) + 6) div 7"

text \<open>\<open>dAtA[i] = b\<close>, with Go's bounds check.\<close>

definition put :: "byte list \<Rightarrow> int \<Rightarrow> byte \<Rightarrow> 'e pb_error + byte list" where
  "put dAtA i b = (if 0 \<le> i \<and> i < int (length dAtA) then Inr (dAtA[nat i := b]) else Inl Panic)"

text \<open>
  \<open>encodeVarintGenerated\<close>: the \<open>for v >= 1<<7\<close> loop and the final store, then the
  function itself, which first moves \<open>offset\<close> back by \<open>sovGenerated v\<close>.
\<close>

function encode_loop :: "byte list \<Rightarrow> int \<Rightarrow> uint64 \<Rightarrow> 'e pb_error + byte list" where
  "encode_loop dAtA offset v =
     (if v \<ge> push_bit 7 1 then
        (case put dAtA offset (ucast ((v AND 0x7f) OR 0x80)) of
           Inl e \<Rightarrow> Inl e
         | Inr dAtA' \<Rightarrow> encode_loop dAtA' (offset + 1) (drop_bit 7 v))
      else put dAtA offset (ucast v))"
  by pat_completeness auto
termination
proof (relation "measure (\<lambda>(d, off, v). unat v)")
  show "wf (measure (\<lambda>(d :: byte list, off :: int, v :: uint64). unat v))" by simp
next
  fix dAtA :: "byte list" and offset :: int and v :: uint64 and x2 :: "byte list"
  assume "push_bit 7 1 \<le> v"
  then have "128 \<le> unat v" by (simp add: word_le_nat_alt)
  then have "unat v div 128 < unat v" by simp
  then have "unat (drop_bit 7 v) < unat v" by (simp add: drop_bit_eq_div unat_div)
  then show "((x2, offset + 1, drop_bit 7 v), dAtA, offset, v) \<in> measure (\<lambda>(d, off, v). unat v)"
    by simp
qed

definition encodeVarintGenerated :: "byte list \<Rightarrow> int \<Rightarrow> uint64 \<Rightarrow> 'e pb_error + (byte list \<times> int)" where
  "encodeVarintGenerated dAtA offset v =
     (let offset = offset - sovGenerated v;
          base = offset
      in case encode_loop dAtA offset v of
           Inl e \<Rightarrow> Inl e
         | Inr dAtA' \<Rightarrow> Inr (dAtA', base))"

text \<open>
  The varint reading loop \<open>for shift := uint(0); ; shift += 7\<close>. The source repeats it
  for \<open>wire\<close>, \<open>msglen\<close>, \<open>stringLen\<close> and in \<open>skipGenerated\<close>; the accumulated bits
  are the same whether the variable is a \<open>uint64\<close> or an \<open>int\<close>, so the loop returns the
  64-bit word and the caller reads it as signed where the source declares an \<open>int\<close>.
  The loop of wire type 0 in \<open>skipGenerated\<close> has the same control flow and drops the
  value.
\<close>

function varint_loop :: "byte list \<Rightarrow> int \<Rightarrow> nat \<Rightarrow> uint64 \<Rightarrow> 'e pb_error + (uint64 \<times> int)" where
  "varint_loop dAtA iNdEx shift wire =
     (if shift \<ge> 64 then Inl ErrIntOverflowGenerated
      else if iNdEx \<ge> int (length dAtA) then Inl ErrUnexpectedEOF
      else if iNdEx < 0 then Inl Panic
      else
        (let b = dAtA ! nat iNdEx;
             iNdEx = iNdEx + 1;
             wire = wire OR push_bit shift (ucast (b AND 0x7F))
         in if b < 0x80 then Inr (wire, iNdEx)
            else varint_loop dAtA iNdEx (shift + 7) wire))"
  by pat_completeness auto
termination
  by (relation "measure (\<lambda>(d, i, shift, w). 64 - shift)") auto

text \<open>The bytes of a varint, least significant group first.\<close>

function varint_bytes :: "uint64 \<Rightarrow> byte list" where
  "varint_bytes v =
     (if v \<ge> push_bit 7 1 then ucast ((v AND 0x7f) OR 0x80) # varint_bytes (drop_bit 7 v)
      else [ucast v])"
  by pat_completeness auto
termination
proof (relation "measure unat")
  show "wf (measure (unat :: uint64 \<Rightarrow> nat))" by simp
next
  fix v :: uint64
  assume "push_bit 7 1 \<le> v"
  then have "128 \<le> unat v" by (simp add: word_le_nat_alt)
  then have "unat v div 128 < unat v" by simp
  then show "(drop_bit 7 v, v) \<in> measure unat" by (simp add: drop_bit_eq_div unat_div)
qed

declare varint_bytes.simps [simp del]

declare encode_loop.simps [simp del]

declare varint_loop.simps [simp del]

text \<open>
  \<open>skipGenerated\<close>. With \<open>inGroup = None\<close> this is the function body; with
  \<open>inGroup = Some iNdEx\<close> it is one pass of the \<open>for { ... }\<close> loop of wire type 3
  (a group), which calls \<open>skipGenerated\<close> on the rest of the slice and loops. The
  function is partial in the option monad: \<open>None\<close> would be a run that does not return.
\<close>

partial_function (option) skip_at :: "byte list \<Rightarrow> int option \<Rightarrow> ('e pb_error + int) option" where
  "skip_at dAtA inGroup =
     (case inGroup of
        None \<Rightarrow>
          (if 0 < int (length dAtA) then
             (case varint_loop dAtA 0 0 0 of
                Inl e \<Rightarrow> Some (Inl e)
              | Inr (wire, iNdEx) \<Rightarrow>
                  (let wireType = uint (wire AND 0x7) in
                   if wireType = 0 then
                     (case varint_loop dAtA iNdEx 0 0 of
                        Inl e \<Rightarrow> Some (Inl e)
                      | Inr (_, iNdEx) \<Rightarrow> Some (Inr iNdEx))
                   else if wireType = 1 then Some (Inr (int64 (iNdEx + 8)))
                   else if wireType = 2 then
                     (case varint_loop dAtA iNdEx 0 0 of
                        Inl e \<Rightarrow> Some (Inl e)
                      | Inr (w, iNdEx) \<Rightarrow>
                          (let len = sint w in
                           if len < 0 then Some (Inl ErrInvalidLengthGenerated)
                           else
                             (let iNdEx = int64 (iNdEx + len) in
                              if iNdEx < 0 then Some (Inl ErrInvalidLengthGenerated)
                              else Some (Inr iNdEx))))
                   else if wireType = 3 then skip_at dAtA (Some iNdEx)
                   else if wireType = 4 then Some (Inr iNdEx)
                   else if wireType = 5 then Some (Inr (int64 (iNdEx + 4)))
                   else Some (Inl ErrIllegalWireType)))
           else Some (Inl Panic))
      | Some iNdEx \<Rightarrow>
          (let start = iNdEx in
           case varint_loop dAtA iNdEx 0 0 of
             Inl e \<Rightarrow> Some (Inl e)
           | Inr (innerWire, iNdEx) \<Rightarrow>
               (let innerWireType = uint (innerWire AND 0x7) in
                if innerWireType = 4 then Some (Inr iNdEx)
                else
                  Option.bind (skip_at (drop (nat start) dAtA) None)
                    (\<lambda>r. case r of
                       Inl e \<Rightarrow> Some (Inl e)
                     | Inr next \<Rightarrow>
                         (let iNdEx = int64 (start + next) in
                          if iNdEx < 0 then Some (Inl ErrInvalidLengthGenerated)
                          else skip_at dAtA (Some iNdEx))))))"

declare skip_at.simps [code]

definition skipGenerated :: "byte list \<Rightarrow> ('e pb_error + int) option" where
  "skipGenerated dAtA = skip_at dAtA None"

text \<open>
  \<open>RuntimeClass\<close> has two fields on the wire. \<open>Handler\<close> is a Go string, a sequence of
  bytes. \<open>ObjectMeta\<close> is a message of another package; its \<open>Size\<close>,
  \<open>LahsramOt\<close> and \<open>Unmarshal\<close> are the parameters \<open>om_Size\<close>, \<open>om_LahsramOt\<close> and
  \<open>om_Unmarshal\<close>. \<open>om_LahsramOt\<close> is given the slice \<open>dAtA[:i]\<close> and returns it as it
  left it, with the size it reports.
\<close>

record 'om RuntimeClass =
  ObjectMeta :: 'om
  Handler :: "byte list"

record ('om, 'e) ObjectMeta_methods =
  om_Size :: "'om \<Rightarrow> int"
  om_LahsramOt :: "'om \<Rightarrow> byte list \<Rightarrow> 'e + (byte list \<times> int)"
  om_Unmarshal :: "'om \<Rightarrow> byte list \<Rightarrow> 'e + 'om"

text \<open>\<open>func (m *RuntimeClass) Size() (n int)\<close>.\<close>

definition RuntimeClass_Size :: "('om, 'e) ObjectMeta_methods \<Rightarrow> 'om RuntimeClass \<Rightarrow> int" where
  "RuntimeClass_Size c m =
     (let n = 0;
          l = om_Size c (ObjectMeta m);
          n = int64 (n + int64 (int64 (1 + l) + sovGenerated (word_of_int l)));
          l = int (length (Handler m));
          n = int64 (n + int64 (int64 (1 + l) + sovGenerated (word_of_int l)))
      in n)"

text \<open>
  \<open>func (m *RuntimeClass) LahsramOt(dAtA []byte) (int, error)\<close>: the buffer is filled
  from its end. \<open>dAtA[i:]\<close> panics for a negative \<open>i\<close>; otherwise \<open>copy\<close> has exactly
  \<open>len(m.Handler)\<close> bytes of room.
\<close>

definition RuntimeClass_LahsramOt ::
    "('om, 'e) ObjectMeta_methods \<Rightarrow> 'om RuntimeClass \<Rightarrow> byte list \<Rightarrow> 'e pb_error + (byte list \<times> int)" where
  "RuntimeClass_LahsramOt c m dAtA =
     (let i = int (length dAtA);
          i = i - int (length (Handler m))
      in if i < 0 then Inl Panic
         else
           (let dAtA = take (nat i) dAtA @ Handler m in
            case encodeVarintGenerated dAtA i (word_of_int (int (length (Handler m)))) of
              Inl e \<Rightarrow> Inl e
            | Inr (dAtA, i) \<Rightarrow>
                (let i = i - 1 in
                 case put dAtA i 0x12 of
                   Inl e \<Rightarrow> Inl e
                 | Inr dAtA \<Rightarrow>
                     (case om_LahsramOt c (ObjectMeta m) (take (nat i) dAtA) of
                        Inl e \<Rightarrow> Inl (ErrObjectMeta e)
                      | Inr (head, sz) \<Rightarrow>
                          (let dAtA = head @ drop (nat i) dAtA;
                               i = i - sz
                           in case encodeVarintGenerated dAtA i (word_of_int sz) of
                                Inl e \<Rightarrow> Inl e
                              | Inr (dAtA, i) \<Rightarrow>
                                  (let i = i - 1 in
                                   case put dAtA i 0xa of
                                     Inl e \<Rightarrow> Inl e
                                   | Inr dAtA \<Rightarrow> Inr (dAtA, int (length dAtA) - i)))))))"

text \<open>\<open>func (m *RuntimeClass) Marshal() (dAtA []byte, err error)\<close>.\<close>

definition RuntimeClass_Marshal ::
    "('om, 'e) ObjectMeta_methods \<Rightarrow> 'om RuntimeClass \<Rightarrow> 'e pb_error + byte list" where
  "RuntimeClass_Marshal c m =
     (let sz = RuntimeClass_Size c m in
      if sz < 0 then Inl Panic
      else
        (let dAtA = replicate (nat sz) 0 in
         case RuntimeClass_LahsramOt c m (take (nat sz) dAtA) of
           Inl e \<Rightarrow> Inl e
         | Inr (dAtA, n) \<Rightarrow>
             if n < 0 \<or> int (length dAtA) < n then Inl Panic
             else Inr (take (nat n) dAtA)))"

text \<open>\<open>dAtA[lo:hi]\<close>, used where the source has checked \<open>0 <= lo <= hi <= len(dAtA)\<close>.\<close>

definition slice :: "byte list \<Rightarrow> int \<Rightarrow> int \<Rightarrow> byte list" where
  "slice dAtA lo hi = drop (nat lo) (take (nat hi) dAtA)"

text \<open>
  \<open>func (m *RuntimeClass) Unmarshal(dAtA []byte) error\<close>: the loop \<open>for iNdEx < l\<close>,
  started at \<open>iNdEx = 0\<close>. The receiver is updated in place; the model returns it.
\<close>

partial_function (option) Unmarshal_loop ::
    "('om, 'e) ObjectMeta_methods \<Rightarrow> 'om RuntimeClass \<Rightarrow> byte list \<Rightarrow> int \<Rightarrow>
     ('e pb_error + 'om RuntimeClass) option" where
  "Unmarshal_loop c m dAtA iNdEx =
     (let l = int (length dAtA) in
      if iNdEx < l then
        (let preIndex = iNdEx in
         case varint_loop dAtA iNdEx 0 0 of
           Inl e \<Rightarrow> Some (Inl e)
         | Inr (wire, iNdEx) \<Rightarrow>
             (let fieldNum = sint (ucast (drop_bit 3 wire) :: 32 word);
                  wireType = uint (wire AND 0x7)
              in if wireType = 4 then Some (Inl ErrEndGroupForNonGroup)
                 else if fieldNum \<le> 0 then Some (Inl ErrIllegalTag)
                 else if fieldNum = 1 then
                   (if wireType \<noteq> 2 then Some (Inl (ErrWrongWireType 1))
                    else
                      (case varint_loop dAtA iNdEx 0 0 of
                         Inl e \<Rightarrow> Some (Inl e)
                       | Inr (w, iNdEx) \<Rightarrow>
                           (let msglen = sint w in
                            if msglen < 0 then Some (Inl ErrInvalidLengthGenerated)
                            else
                              (let postIndex = int64 (iNdEx + msglen) in
                               if postIndex < 0 then Some (Inl ErrInvalidLengthGenerated)
                               else if postIndex > l then Some (Inl ErrUnexpectedEOF)
                               else
                                 (case om_Unmarshal c (ObjectMeta m) (slice dAtA iNdEx postIndex) of
                                    Inl e \<Rightarrow> Some (Inl (ErrObjectMeta e))
                                  | Inr om \<Rightarrow>
                                      Unmarshal_loop c (m\<lparr>ObjectMeta := om\<rparr>) dAtA postIndex)))))
                 else if fieldNum = 2 then
                   (if wireType \<noteq> 2 then Some (Inl (ErrWrongWireType 2))
                    else
                      (case varint_loop dAtA iNdEx 0 0 of
                         Inl e \<Rightarrow> Some (Inl e)
                       | Inr (stringLen, iNdEx) \<Rightarrow>
                           (let intStringLen = sint stringLen in
                            if intStringLen < 0 then Some (Inl ErrInvalidLengthGenerated)
                            else
                              (let postIndex = int64 (iNdEx + intStringLen) in
                               if postIndex < 0 then Some (Inl ErrInvalidLengthGenerated)
                               else if postIndex > l then Some (Inl ErrUnexpectedEOF)
                               else
                                 Unmarshal_loop c (m\<lparr>Handler := slice dAtA iNdEx postIndex\<rparr>)
                                   dAtA postIndex))))
                 else
                   (let iNdEx = preIndex in
                    Option.bind (skipGenerated (drop (nat iNdEx) dAtA))
                      (\<lambda>r. case r of
                         Inl e \<Rightarrow> Some (Inl e)
                       | Inr skippy \<Rightarrow>
                           if skippy < 0 then Some (Inl ErrInvalidLengthGenerated)
                           else if int64 (iNdEx + skippy) < 0 then Some (Inl ErrInvalidLengthGenerated)
                           else if int64 (iNdEx + skippy) > l then Some (Inl ErrUnexpectedEOF)
                           else Unmarshal_loop c m dAtA (int64 (iNdEx + skippy))))))
      else if iNdEx > l then Some (Inl ErrUnexpectedEOF)
      else Some (Inr m))"

declare Unmarshal_loop.simps [code]

definition RuntimeClass_Unmarshal ::
    "('om, 'e) ObjectMeta_methods \<Rightarrow> 'om RuntimeClass \<Rightarrow> byte list \<Rightarrow>
     ('e pb_error + 'om RuntimeClass) option" where
  "RuntimeClass_Unmarshal c m dAtA = Unmarshal_loop c m dAtA 0"

text \<open>A stand-in for the ObjectMeta codec: the message is kept as its own bytes.\<close>

definition raw_meta :: "(byte list, unit) ObjectMeta_methods" where
  "raw_meta =
     \<lparr>om_Size = (\<lambda>om. int (length om)),
      om_LahsramOt = (\<lambda>om buf.
         if length buf < length om then Inl ()
         else Inr (take (length buf - length om) buf @ om, int (length om))),
      om_Unmarshal = (\<lambda>om bs. Inr bs)\<rparr>"

text \<open>
  What a marshalled \<open>RuntimeClass\<close> looks like: tag \<open>0xa\<close>, the length of the ObjectMeta
  bytes, these bytes, tag \<open>0x12\<close>, the length of the handler, the handler.
\<close>

definition wire_bytes :: "byte list \<Rightarrow> byte list \<Rightarrow> byte list" where
  "wire_bytes enc handler =
     0xa # varint_bytes (of_nat (length enc)) @ enc @
     0x12 # varint_bytes (of_nat (length handler)) @ handler"

text \<open>
  The contract of a sized-buffer marshaller, for ObjectMeta: \<open>Size\<close> is the length of the
  encoding \<open>enc\<close>, and \<open>LahsramOt\<close> writes \<open>enc\<close> into the last bytes of any buffer that
  has room for it, and reports that length.
\<close>

definition om_marshals :: "('om, 'e) ObjectMeta_methods \<Rightarrow> 'om \<Rightarrow> byte list \<Rightarrow> bool" where
  "om_marshals c om enc \<longleftrightarrow>
     om_Size c om = int (length enc) \<and>
     (\<forall>buf. length enc \<le> length buf \<longrightarrow>
        om_LahsramOt c om buf = Inr (take (length buf - length enc) buf @ enc, int (length enc)))"

subsection \<open>Varints: sizes, bytes and reading them back\<close>

lemma varint_bytes_nonempty: "varint_bytes v \<noteq> []"
  by (subst varint_bytes.simps) simp

lemma Len_pos: "0 < n \<Longrightarrow> 1 \<le> Len n"
  by (subst Len.simps) simp

lemma Len_le: "n < 2 ^ k \<Longrightarrow> Len n \<le> k"
proof (induction k arbitrary: n)
  case 0
  then show ?case by (subst Len.simps) simp
next
  case (Suc k)
  then have "n div 2 < 2 ^ k" by simp
  from Suc.IH [OF this] show ?case by (subst Len.simps) simp
qed

lemma Len_shift: "2 ^ k \<le> n \<Longrightarrow> Len n = Len (n div 2 ^ k) + k"
proof (induction k arbitrary: n)
  case 0
  then show ?case by simp
next
  case (Suc k)
  then have "2 ^ k \<le> n div 2" by simp
  from Suc.IH [OF this] have "Len (n div 2) = Len (n div 2 div 2 ^ k) + k" .
  moreover have "n div 2 div 2 ^ k = n div 2 ^ Suc k"
    by (simp add: div_mult2_eq)
  moreover have "0 < (2::nat) ^ Suc k" by simp
  with Suc.prems have "n \<noteq> 0" by linarith
  ultimately show ?case by (subst Len.simps) simp
qed

lemma Len_1: "Len (Suc 0) = Suc 0"
  by (simp add: Len.simps)

lemma Len_or_1: "Len (n OR 1) = (if n = 0 then 1 else Len n)"
proof (cases "even n")
  case False
  with or_one_eq [of n] have "n OR 1 = n" by simp
  moreover from False have "n \<noteq> 0" using odd_pos by blast
  ultimately show ?thesis by simp
next
  case True
  with or_one_eq [of n] have e: "n OR 1 = n + 1" by simp
  show ?thesis
  proof (cases "n = 0")
    case True
    then show ?thesis by (simp add: Len_1)
  next
    case False
    from \<open>even n\<close> have "(n + 1) div 2 = n div 2" by auto
    then have "Len (n + 1) = Suc (Len (n div 2))" by (subst Len.simps) simp
    moreover from False have "Len n = Suc (Len (n div 2))" by (subst Len.simps) simp
    ultimately show ?thesis using e False by simp
  qed
qed

lemma Len64_or_1: "Len64 (v OR 1) = (if v = 0 then 1 else Len64 v)"
proof -
  have "unat (v OR 1) = unat v OR 1" by (simp add: unsigned_or_eq)
  then have "Len64 (v OR 1) = int (Len (unat v OR 1))" by (simp add: Len64_def)
  also have "\<dots> = (if unat v = 0 then 1 else int (Len (unat v)))"
    by (simp only: Len_or_1) simp
  finally show ?thesis by (simp add: Len64_def unat_eq_0)
qed

lemma sovGenerated_small:
  assumes "v < push_bit 7 1"
  shows "sovGenerated v = 1"
proof (cases "v = 0")
  case True
  have "Len64 (v OR 1) = 1" using Len64_or_1 [of v] True by simp
  then show ?thesis unfolding sovGenerated_def by simp
next
  case False
  from assms have "unat v < 2 ^ 7" by (simp add: word_less_nat_alt)
  then have "Len (unat v) \<le> 7" by (rule Len_le)
  moreover from False have "0 < unat v" by (simp add: unat_gt_0)
  then have "1 \<le> Len (unat v)" by (rule Len_pos)
  moreover have "Len64 (v OR 1) = Len64 v" using Len64_or_1 [of v] False by simp
  ultimately show ?thesis unfolding sovGenerated_def by (simp add: Len64_def)
qed

lemma unat_drop_bit_7: "unat (drop_bit 7 (v :: uint64)) = unat v div 128"
  by (simp add: drop_bit_eq_div unat_div)

lemma sovGenerated_step:
  assumes "push_bit 7 1 \<le> v"
  shows "sovGenerated v = sovGenerated (drop_bit 7 v) + 1"
proof -
  from assms have ge: "2 ^ 7 \<le> unat v" by (simp add: word_le_nat_alt)
  then have "Len (unat v) = Len (unat v div 2 ^ 7) + 7" by (rule Len_shift)
  then have L: "Len64 v = Len64 (drop_bit 7 v) + 7"
    by (simp add: Len64_def unat_drop_bit_7)
  from ge have "unat v \<noteq> 0" by auto
  then have nz: "v \<noteq> 0" by auto
  from ge have "1 \<le> unat v div 128" by simp
  then have "unat (drop_bit 7 v) \<noteq> 0" by (simp add: unat_drop_bit_7)
  then have nz': "drop_bit 7 v \<noteq> 0" by auto
  have "Len64 (v OR 1) = Len64 v" using Len64_or_1 [of v] nz by simp
  moreover have "Len64 (drop_bit 7 v OR 1) = Len64 (drop_bit 7 v)"
    using Len64_or_1 [of "drop_bit 7 v"] nz' by simp
  ultimately show ?thesis using L unfolding sovGenerated_def by simp
qed

lemma length_varint_bytes: "int (length (varint_bytes v)) = sovGenerated v"
proof (induction v rule: varint_bytes.induct)
  case (1 v)
  show ?case
  proof (cases "push_bit 7 1 \<le> v")
    case True
    with 1 have "int (length (varint_bytes (drop_bit 7 v))) = sovGenerated (drop_bit 7 v)" by simp
    with True show ?thesis
      by (subst varint_bytes.simps) (simp add: sovGenerated_step)
  next
    case False
    then have "v < push_bit 7 1" by simp
    then have "sovGenerated v = 1" by (rule sovGenerated_small)
    with False show ?thesis by (subst varint_bytes.simps) simp
  qed
qed

lemma put_in_range:
  "0 \<le> i \<Longrightarrow> nat i < length d \<Longrightarrow> put d i b = Inr (take (nat i) d @ b # drop (nat i + 1) d)"
  by (simp add: put_def upd_conv_take_nth_drop)

lemma encode_loop_bytes:
  "0 \<le> off \<Longrightarrow> nat off + length (varint_bytes v) \<le> length d \<Longrightarrow>
   encode_loop d off v =
     Inr (take (nat off) d @ varint_bytes v @ drop (nat off + length (varint_bytes v)) d)"
proof (induction v arbitrary: d off rule: varint_bytes.induct)
  case (1 v)
  let ?n = "nat off"
  show ?case
  proof (cases "push_bit 7 1 \<le> v")
    case False
    then have vb: "varint_bytes v = [ucast v]" by (subst varint_bytes.simps) simp
    with 1 have "nat off < length d" by simp
    with 1 have "put d off (ucast v :: byte) = (Inr (take ?n d @ ucast v # drop (?n + 1) d) :: 'a pb_error + byte list)"
      by (intro put_in_range) simp_all
    with False vb show ?thesis by (subst encode_loop.simps) simp
  next
    case True
    let ?b = "ucast ((v AND 0x7f) OR 0x80) :: byte"
    let ?d' = "take ?n d @ ?b # drop (?n + 1) d"
    let ?rest = "varint_bytes (drop_bit 7 v)"
    from True have vb: "varint_bytes v = ?b # ?rest" by (subst varint_bytes.simps) simp
    with 1 have len: "?n + 1 + length ?rest \<le> length d" by simp
    then have lt: "?n < length d" by simp
    with 1 have p: "put d off ?b = (Inr ?d' :: 'a pb_error + byte list)"
      by (intro put_in_range) simp_all
    have ld: "length ?d' = length d" using lt by simp
    have "nat (off + 1) = ?n + 1" using 1 by simp
    with len ld have "nat (off + 1) + length ?rest \<le> length ?d'" by simp
    with 1 True have "encode_loop ?d' (off + 1) (drop_bit 7 v) =
       (Inr (take (nat (off + 1)) ?d' @ ?rest @ drop (nat (off + 1) + length ?rest) ?d')
          :: 'a pb_error + byte list)"
      by simp
    moreover have "take (nat (off + 1)) ?d' = take ?n d @ [?b]"
      using lt \<open>nat (off + 1) = ?n + 1\<close> by simp
    moreover have "drop (nat (off + 1) + length ?rest) ?d' = drop (?n + 1 + length ?rest) d"
      using lt \<open>nat (off + 1) = ?n + 1\<close> by (simp add: add.commute)
    ultimately show ?thesis using True p vb
      by (subst encode_loop.simps) simp
  qed
qed

lemma bit_128_int: "bit (128 :: int) n \<longleftrightarrow> n = 7"
proof -
  have "(128 :: int) = 2 ^ 7" by simp
  then show ?thesis by (simp only: bit_exp_iff) auto
qed

lemma bit_127_int: "bit (127 :: int) n \<longleftrightarrow> n < 7"
proof -
  have "(127 :: int) = mask 7" by (simp add: mask_eq_exp_minus_1)
  then show ?thesis by (simp only: bit_mask_iff) auto
qed

lemma low7_or_high: "(v AND 0x7f) OR push_bit 7 (drop_bit 7 v) = (v :: uint64)"
proof (rule bit_eqI)
  fix n
  show "bit (v AND 0x7f OR push_bit 7 (drop_bit 7 v)) n = bit v n"
    by (cases "n < 7") (auto simp: bit_simps bit_127_int dest: bit_imp_le_length)
qed

lemma byte_of_more:
  "(ucast (ucast ((v :: uint64) AND 0x7f OR 0x80) AND (0x7F :: byte)) :: uint64) = v AND 0x7f"
  by (rule bit_eqI) (auto simp: bit_simps bit_127_int bit_128_int)

lemma bit7: "bit (ucast ((v :: uint64) AND 0x7f OR 0x80) :: byte) 7"
  by (simp add: bit_simps bit_128_int)

lemma bit_nat_le: "bit (m :: nat) n \<Longrightarrow> 2 ^ n \<le> m"
  by (rule ccontr) (simp add: bit_iff_odd not_le)

lemma byte_more_big: "\<not> (ucast ((v :: uint64) AND 0x7f OR 0x80) :: byte) < 0x80"
proof -
  let ?b = "ucast ((v :: uint64) AND 0x7f OR 0x80) :: byte"
  have "bit ?b 7" by (rule bit7)
  then have "bit (unat ?b) 7" by (simp only: bit_unsigned_iff) simp
  then have "2 ^ 7 \<le> unat ?b" by (rule bit_nat_le)
  then show ?thesis by (simp add: word_less_nat_alt)
qed

lemma byte_last_small:
  assumes "v < push_bit 7 1"
  shows "(ucast (v :: uint64) :: byte) < 0x80"
proof -
  from assms have "unat v < 128" by (simp add: word_less_nat_alt)
  moreover have "unat (ucast v :: byte) = take_bit 8 (unat v)"
    by (simp add: unsigned_ucast_eq)
  moreover have "take_bit 8 (unat v) \<le> unat v" by (rule take_bit_nat_less_eq_self)
  ultimately have "unat (ucast v :: byte) < 128" by linarith
  then show ?thesis by (simp add: word_less_nat_alt)
qed

lemma byte_of_last:
  assumes "v < push_bit 7 1"
  shows "(ucast (ucast (v :: uint64) AND (0x7F :: byte)) :: uint64) = v"
proof -
  from assms have "unat v < 2 ^ 7" by (simp add: word_less_nat_alt)
  have b: "n < 7" if "bit v n" for n
  proof (rule ccontr)
    assume "\<not> n < 7"
    from that have "bit (unat v) n" by (simp only: bit_unsigned_iff) (simp add: bit_imp_le_length)
    then have "2 ^ n \<le> unat v" by (rule bit_nat_le)
    moreover from \<open>\<not> n < 7\<close> have "(2::nat) ^ 7 \<le> 2 ^ n" by (intro power_increasing) simp_all
    ultimately show False using \<open>unat v < 2 ^ 7\<close> by simp
  qed
  show ?thesis
    by (rule bit_eqI) (auto simp: bit_simps bit_127_int dest: b)
qed

lemma varint_loop_bytes:
  "s < 64 \<Longrightarrow> unat v < 2 ^ (64 - s) \<Longrightarrow>
   varint_loop (pre @ varint_bytes v @ post) (int (length pre)) s acc =
     Inr (acc OR push_bit s v, int (length pre + length (varint_bytes v)))"
proof (induction v arbitrary: pre s acc rule: varint_bytes.induct)
  case (1 v)
  show ?case
  proof (cases "push_bit 7 1 \<le> v")
    case False
    then have small: "v < push_bit 7 1" by simp
    from False have vb: "varint_bytes v = [ucast v]" by (subst varint_bytes.simps) simp
    show ?thesis
      using 1(2) small
      by (subst varint_loop.simps)
         (simp add: vb nth_append byte_last_small byte_of_last del: push_bit_of_1)
  next
    case True
    let ?b = "ucast ((v AND 0x7f) OR 0x80) :: byte"
    let ?rest = "varint_bytes (drop_bit 7 v)"
    from True have vb: "varint_bytes v = ?b # ?rest" by (subst varint_bytes.simps) simp
    from True have ge: "2 ^ 7 \<le> unat v" by (simp add: word_le_nat_alt)
    with 1(3) have "(2::nat) ^ 7 < 2 ^ (64 - s)" by linarith
    then have "7 < 64 - s" by (simp only: power_strict_increasing_iff) 
    then have s7: "s + 7 < 64" by simp
    have "unat (drop_bit 7 v) = unat v div 2 ^ 7" by (simp add: unat_drop_bit_7)
    also have "\<dots> < 2 ^ (64 - s - 7)"
    proof -
      from \<open>7 < 64 - s\<close> have "64 - s = (64 - s - 7) + 7" by simp
      then have "(2::nat) ^ (64 - s) = 2 ^ ((64 - s - 7) + 7)" by (simp only:)
      also have "\<dots> = 2 ^ (64 - s - 7) * 2 ^ 7" by (rule power_add)
      finally have "unat v < 2 ^ (64 - s - 7) * 2 ^ 7" using 1(3) by (simp only:)
      then show ?thesis by (rule less_mult_imp_div_less)
    qed
    finally have small': "unat (drop_bit 7 v) < 2 ^ (64 - (s + 7))" by simp
    have IH: "varint_loop ((pre @ [?b]) @ ?rest @ post) (int (length (pre @ [?b]))) (s + 7)
          (acc OR push_bit s (v AND 0x7f)) =
        (Inr ((acc OR push_bit s (v AND 0x7f)) OR push_bit (s + 7) (drop_bit 7 v),
             int (length (pre @ [?b]) + length ?rest)) :: 'a pb_error + (uint64 \<times> int))"
      using True s7 small' by (intro 1(1)) simp_all
    have "(acc OR push_bit s (v AND 0x7f)) OR push_bit (s + 7) (drop_bit 7 v)
        = acc OR push_bit s ((v AND 0x7f) OR push_bit 7 (drop_bit 7 v))"
      by (simp add: push_bit_or push_bit_push_bit or.assoc add.commute)
    also have "\<dots> = acc OR push_bit s v" by (simp only: low7_or_high)
    finally have e: "(acc OR push_bit s (v AND 0x7f)) OR push_bit (s + 7) (drop_bit 7 v)
        = acc OR push_bit s v" .
    show ?thesis
      using 1(2) IH e
      by (subst varint_loop.simps)
         (simp add: vb nth_append byte_more_big byte_of_more add.commute del: push_bit_of_1)
  qed
qed

lemma int64_id: "0 \<le> x \<Longrightarrow> x < 2 ^ 63 \<Longrightarrow> int64 x = x"
  by (simp add: int64_def sint_sbintrunc' signed_take_bit_int_eq_self)

lemma sint_of_nat_len: "n < 2 ^ 63 \<Longrightarrow> sint (word_of_int (int n) :: uint64) = int n"
  using int64_id [of "int n"] by (simp add: int64_def)

lemma sovGenerated_le_10: "sovGenerated v \<le> 10"
proof -
  have "unat (v OR 1) < 2 ^ 64" using unsigned_less [of "v OR 1"] by simp
  then have "Len (unat (v OR 1)) \<le> 64" by (rule Len_le)
  then show ?thesis by (simp add: sovGenerated_def Len64_def)
qed

lemma length_varint_bytes_le: "length (varint_bytes v) \<le> 10"
  using length_varint_bytes [of v] sovGenerated_le_10 [of v] by simp

lemma varint_bytes_tag1: "varint_bytes 0xa = [0xa]"
  by (subst varint_bytes.simps) simp

lemma varint_bytes_tag2: "varint_bytes 0x12 = [0x12]"
  by (subst varint_bytes.simps) simp

lemma varint_loop_at:
  "varint_loop (pre @ varint_bytes v @ post) (int (length pre)) 0 0 =
     Inr (v, int (length pre) + int (length (varint_bytes v)))"
  using varint_loop_bytes [of 0 v pre post 0] unsigned_less [of v] by simp

lemma encodeVarintGenerated_bytes:
  assumes "i = int (length pre) + int (length (varint_bytes v))"
    "length gap = length (varint_bytes v)"
  shows "encodeVarintGenerated (pre @ gap @ post) i v =
     (Inr (pre @ varint_bytes v @ post, int (length pre)) :: 'e pb_error + (byte list \<times> int))"
proof -
  let ?off = "i - sovGenerated v"
  have off: "?off = int (length pre)"
    using assms length_varint_bytes [of v] by simp
  have "encode_loop (pre @ gap @ post) (int (length pre)) v =
     (Inr (take (nat (int (length pre))) (pre @ gap @ post) @ varint_bytes v @
          drop (nat (int (length pre)) + length (varint_bytes v)) (pre @ gap @ post))
        :: 'e pb_error + byte list)"
    using assms by (intro encode_loop_bytes) simp_all
  then have "encode_loop (pre @ gap @ post) (int (length pre)) v =
     (Inr (pre @ varint_bytes v @ post) :: 'e pb_error + byte list)"
    using assms by simp
  then show ?thesis
    by (simp add: encodeVarintGenerated_def off)
qed

lemma put_at:
  "put (pre @ b' # post) (int (length pre)) b = (Inr (pre @ b # post) :: 'e pb_error + byte list)"
  by (simp add: put_def)

lemma RuntimeClass_LahsramOt_steps:
  fixes c :: "('om, 'e) ObjectMeta_methods"
  assumes "i1 = int (length dAtA) - int (length (Handler m))" "0 \<le> i1"
    and "encodeVarintGenerated (take (nat i1) dAtA @ Handler m) i1
           (word_of_int (int (length (Handler m)))) =
         (Inr (d2, i2) :: 'e pb_error + (byte list \<times> int))"
    and "put d2 (i2 - 1) 0x12 = (Inr d3 :: 'e pb_error + byte list)"
    and "om_LahsramOt c (ObjectMeta m) (take (nat (i2 - 1)) d3) = Inr (head, sz)"
    and "encodeVarintGenerated (head @ drop (nat (i2 - 1)) d3) (i2 - 1 - sz) (word_of_int sz) =
           (Inr (d5, i5) :: 'e pb_error + (byte list \<times> int))"
    and "put d5 (i5 - 1) 0xa = (Inr d6 :: 'e pb_error + byte list)"
  shows "RuntimeClass_LahsramOt c m dAtA = Inr (d6, int (length d6) - (i5 - 1))"
  using assms by (simp add: RuntimeClass_LahsramOt_def Let_def)

lemma RuntimeClass_LahsramOt_buffer:
  fixes c :: "('om, 'e) ObjectMeta_methods"
  assumes om: "om_marshals c (ObjectMeta m) enc"
    and B: "length B = length (varint_bytes (of_nat (length enc)))"
    and C: "length C = length enc"
    and E: "length E = length (varint_bytes (of_nat (length (Handler m))))"
    and F: "length F = length (Handler m)"
  shows "RuntimeClass_LahsramOt c m (P @ A # B @ C @ D # E @ F) =
     Inr (P @ wire_bytes enc (Handler m), int (length (wire_bytes enc (Handler m))))"
proof -
  let ?h = "Handler m"
  let ?vh = "varint_bytes (of_nat (length ?h))"
  let ?ve = "varint_bytes (of_nat (length enc))"
  let ?dAtA = "P @ A # B @ C @ D # E @ F"
  let ?i1 = "int (length P) + 1 + int (length B) + int (length C) + 1 + int (length E)"
  let ?i2 = "int (length P) + 1 + int (length B) + int (length C) + 1"
  let ?d2 = "P @ A # B @ C @ D # ?vh @ ?h"
  let ?d3 = "P @ A # B @ C @ 0x12 # ?vh @ ?h"
  let ?head = "P @ A # B @ enc"
  let ?d5 = "P @ A # ?ve @ enc @ 0x12 # ?vh @ ?h"
  let ?i5 = "int (length P) + 1"
  let ?d6 = "P @ 0xa # ?ve @ enc @ 0x12 # ?vh @ ?h"
  have s0: "?i1 = int (length ?dAtA) - int (length ?h)" using F by simp
  have s0': "0 \<le> ?i1" by simp
  have t1: "take (nat ?i1) ?dAtA @ ?h = P @ A # B @ C @ D # E @ ?h"
  proof -
    have "nat ?i1 = length (P @ A # B @ C @ D # E)" by simp
    then have "take (nat ?i1) ((P @ A # B @ C @ D # E) @ F) = P @ A # B @ C @ D # E"
      by (simp only: take_append) simp
    then show ?thesis by simp
  qed
  have s2: "encodeVarintGenerated (take (nat ?i1) ?dAtA @ ?h) ?i1 (word_of_int (int (length ?h))) =
      (Inr (?d2, ?i2) :: 'e pb_error + (byte list \<times> int))"
    unfolding t1
    using encodeVarintGenerated_bytes
      [where ?'e = 'e, of ?i1 "P @ A # B @ C @ [D]" "of_nat (length ?h)" E ?h] E
    by simp
  have s3: "put ?d2 (?i2 - 1) 0x12 = (Inr ?d3 :: 'e pb_error + byte list)"
    using put_at [where ?'e = 'e, of "P @ A # B @ C" D "?vh @ ?h" "0x12"] by simp
  have t4: "take (nat (?i2 - 1)) ?d3 = P @ A # B @ C"
  proof -
    have "nat (?i2 - 1) = length (P @ A # B @ C)" by simp
    then have "take (nat (?i2 - 1)) ((P @ A # B @ C) @ 0x12 # ?vh @ ?h) = P @ A # B @ C"
      by (simp only: take_append) simp
    then show ?thesis by simp
  qed
  have d4: "drop (nat (?i2 - 1)) ?d3 = 0x12 # ?vh @ ?h"
  proof -
    have "nat (?i2 - 1) = length (P @ A # B @ C)" by simp
    then have "drop (nat (?i2 - 1)) ((P @ A # B @ C) @ 0x12 # ?vh @ ?h) = 0x12 # ?vh @ ?h"
      by (simp only: drop_append) simp
    then show ?thesis by simp
  qed
  have s4: "om_LahsramOt c (ObjectMeta m) (take (nat (?i2 - 1)) ?d3) = Inr (?head, int (length enc))"
    unfolding t4 using om C by (simp add: om_marshals_def)
  have s5: "encodeVarintGenerated (?head @ drop (nat (?i2 - 1)) ?d3) (?i2 - 1 - int (length enc))
        (word_of_int (int (length enc))) =
      (Inr (?d5, ?i5) :: 'e pb_error + (byte list \<times> int))"
    unfolding d4
    using encodeVarintGenerated_bytes
      [where ?'e = 'e, of "?i2 - 1 - int (length enc)" "P @ [A]" "of_nat (length enc)" B
         "enc @ 0x12 # ?vh @ ?h"] B C
    by (simp add: ac_simps)
  have s6: "put ?d5 (?i5 - 1) 0xa = (Inr ?d6 :: 'e pb_error + byte list)"
    using put_at [where ?'e = 'e, of P A "?ve @ enc @ 0x12 # ?vh @ ?h" "0xa"] by simp
  have "RuntimeClass_LahsramOt c m ?dAtA = Inr (?d6, int (length ?d6) - (?i5 - 1))"
    by (rule RuntimeClass_LahsramOt_steps [OF s0 s0' s2 s3 s4 s5 s6])
  then show ?thesis by (simp add: wire_bytes_def)
qed

lemma length_wire_bytes:
  "int (length (wire_bytes enc h)) =
     1 + int (length enc) + sovGenerated (of_nat (length enc)) +
     (1 + int (length h) + sovGenerated (of_nat (length h)))"
  by (simp add: wire_bytes_def length_varint_bytes [symmetric])

lemma RuntimeClass_Size_wire:
  assumes om: "om_marshals c (ObjectMeta m) enc"
    and range: "length (wire_bytes enc (Handler m)) < 2 ^ 63"
  shows "RuntimeClass_Size c m = int (length (wire_bytes enc (Handler m)))"
proof -
  let ?le = "int (length enc)" and ?lh = "int (length (Handler m))"
  let ?se = "sovGenerated (of_nat (length enc))" and ?sh = "sovGenerated (of_nat (length (Handler m)))"
  have pe: "0 \<le> ?se" using length_varint_bytes [of "of_nat (length enc) :: uint64"] by simp
  have ph: "0 \<le> ?sh" using length_varint_bytes [of "of_nat (length (Handler m)) :: uint64"] by simp
  from range have "int (length (wire_bytes enc (Handler m))) < 2 ^ 63"
    by (metis of_nat_less_iff of_nat_numeral of_nat_power)
  then have tot: "1 + ?le + ?se + (1 + ?lh + ?sh) < 2 ^ 63"
    by (simp only: length_wire_bytes)
  have "om_Size c (ObjectMeta m) = ?le" using om by (simp add: om_marshals_def)
  then have "RuntimeClass_Size c m = 1 + ?le + ?se + (1 + ?lh + ?sh)"
    using tot pe ph by (simp add: RuntimeClass_Size_def Let_def int64_id)
  then show ?thesis by (simp only: length_wire_bytes)
qed

lemma RuntimeClass_Marshal_wire:
  fixes c :: "('om, 'e) ObjectMeta_methods"
  assumes om: "om_marshals c (ObjectMeta m) enc"
    and range: "length (wire_bytes enc (Handler m)) < 2 ^ 63"
  shows "RuntimeClass_Marshal c m = Inr (wire_bytes enc (Handler m))"
proof -
  let ?W = "wire_bytes enc (Handler m)"
  let ?ve = "varint_bytes (of_nat (length enc) :: uint64)"
  let ?vh = "varint_bytes (of_nat (length (Handler m)) :: uint64)"
  let ?Z = "\<lambda>n. replicate n (0 :: byte)"
  have sz: "RuntimeClass_Size c m = int (length ?W)"
    using om range by (rule RuntimeClass_Size_wire)
  have "length ?W = 1 + (length ?ve + (length enc + (1 + (length ?vh + length (Handler m)))))"
    by (simp add: wire_bytes_def)
  then have "?Z (length ?W) =
      [] @ 0 # ?Z (length ?ve) @ ?Z (length enc) @ 0 # ?Z (length ?vh) @ ?Z (length (Handler m))"
    by (simp only: replicate_add replicate_Suc One_nat_def plus_1_eq_Suc replicate_0 append_Nil append_Cons)
  moreover have "RuntimeClass_LahsramOt c m
      ([] @ 0 # ?Z (length ?ve) @ ?Z (length enc) @ 0 # ?Z (length ?vh) @ ?Z (length (Handler m))) =
     Inr ([] @ ?W, int (length ?W))"
    using om by (intro RuntimeClass_LahsramOt_buffer) simp_all
  ultimately have "RuntimeClass_LahsramOt c m (?Z (length ?W)) = Inr (?W, int (length ?W))"
    by simp
  then show ?thesis
    by (simp add: RuntimeClass_Marshal_def sz Let_def)
qed

lemma tag1_fields:
  "sint (ucast (drop_bit 3 (0xa :: uint64)) :: 32 word) = 1" "uint ((0xa :: uint64) AND 0x7) = 2"
  by simp_all

lemma tag2_fields:
  "sint (ucast (drop_bit 3 (0x12 :: uint64)) :: 32 word) = 2" "uint ((0x12 :: uint64) AND 0x7) = 2"
  by simp_all

lemma Unmarshal_loop_field1:
  fixes c :: "('om, 'e) ObjectMeta_methods"
  assumes "iNdEx < int (length dAtA)"
    and "varint_loop dAtA iNdEx 0 0 = (Inr (0xa, i1) :: 'e pb_error + (uint64 \<times> int))"
    and "varint_loop dAtA i1 0 0 = (Inr (w, i2) :: 'e pb_error + (uint64 \<times> int))"
    and "sint w = msglen" "0 \<le> msglen" "0 \<le> i2" "i2 + msglen < 2 ^ 63"
    and "i2 + msglen \<le> int (length dAtA)"
    and "om_Unmarshal c (ObjectMeta m) (slice dAtA i2 (i2 + msglen)) = Inr om"
  shows "Unmarshal_loop c m dAtA iNdEx = Unmarshal_loop c (m\<lparr>ObjectMeta := om\<rparr>) dAtA (i2 + msglen)"
  using assms
  by (subst Unmarshal_loop.simps) (simp add: Let_def tag1_fields int64_id)

lemma Unmarshal_loop_field2:
  fixes c :: "('om, 'e) ObjectMeta_methods"
  assumes "iNdEx < int (length dAtA)"
    and "varint_loop dAtA iNdEx 0 0 = (Inr (0x12, i1) :: 'e pb_error + (uint64 \<times> int))"
    and "varint_loop dAtA i1 0 0 = (Inr (w, i2) :: 'e pb_error + (uint64 \<times> int))"
    and "sint w = stringLen" "0 \<le> stringLen" "0 \<le> i2" "i2 + stringLen < 2 ^ 63"
    and "i2 + stringLen \<le> int (length dAtA)"
  shows "Unmarshal_loop c m dAtA iNdEx =
     Unmarshal_loop c (m\<lparr>Handler := slice dAtA i2 (i2 + stringLen)\<rparr>) dAtA (i2 + stringLen)"
  using assms
  by (subst Unmarshal_loop.simps) (simp add: Let_def tag2_fields int64_id)

lemma Unmarshal_loop_end: "Unmarshal_loop c m dAtA (int (length dAtA)) = Some (Inr m)"
  by (subst Unmarshal_loop.simps) simp

lemma slice_append: "slice (pre @ mid @ post) (int (length pre)) (int (length pre) + int (length mid)) = mid"
proof -
  have "nat (int (length pre) + int (length mid)) = length pre + length mid" by simp
  then show ?thesis by (simp add: slice_def)
qed

lemma RuntimeClass_Unmarshal_wire:
  fixes c :: "('om, 'e) ObjectMeta_methods"
  assumes um: "om_Unmarshal c (ObjectMeta m0) enc = Inr om"
    and range: "length (wire_bytes enc h) < 2 ^ 63"
  shows "RuntimeClass_Unmarshal c m0 (wire_bytes enc h) = Some (Inr (m0\<lparr>ObjectMeta := om, Handler := h\<rparr>))"
proof -
  let ?ve = "varint_bytes (of_nat (length enc) :: uint64)"
  let ?vh = "varint_bytes (of_nat (length h) :: uint64)"
  let ?W = "wire_bytes enc h"
  let ?i1 = "1 :: int"
  let ?i2 = "1 + int (length ?ve)"
  let ?p = "?i2 + int (length enc)"
  let ?j1 = "?p + 1"
  let ?j2 = "?j1 + int (length ?vh)"
  have W: "?W = 0xa # ?ve @ enc @ 0x12 # ?vh @ h" by (simp add: wire_bytes_def)
  have lenW: "int (length ?W) = ?j2 + int (length h)" by (simp add: W)
  from range have r: "int (length ?W) < 2 ^ 63"
    by (metis of_nat_less_iff of_nat_numeral of_nat_power)
  have le: "length enc < 2 ^ 63" and lh: "length h < 2 ^ 63"
    using range by (simp_all add: W)
  have a1: "varint_loop ?W 0 0 0 = (Inr (0xa, ?i1) :: 'e pb_error + (uint64 \<times> int))"
    using varint_loop_at [where ?'a = 'e, of "[]" "0xa" "?ve @ enc @ 0x12 # ?vh @ h"]
    by (simp add: W varint_bytes_tag1)
  have a2: "varint_loop ?W ?i1 0 0 = (Inr (of_nat (length enc), ?i2) :: 'e pb_error + (uint64 \<times> int))"
    using varint_loop_at [where ?'a = 'e, of "[0xa]" "of_nat (length enc)" "enc @ 0x12 # ?vh @ h"]
    by (simp add: W)
  have a3: "sint (of_nat (length enc) :: uint64) = int (length enc)"
    using sint_of_nat_len [OF le] by simp
  have a4: "slice ?W ?i2 ?p = enc"
    using slice_append [of "0xa # ?ve" enc "0x12 # ?vh @ h"] by (simp add: W)
  have step1: "Unmarshal_loop c m0 ?W 0 = Unmarshal_loop c (m0\<lparr>ObjectMeta := om\<rparr>) ?W ?p"
  proof (rule Unmarshal_loop_field1 [OF _ a1 a2 a3])
    show "0 < int (length ?W)" by (simp add: W)
    show "0 \<le> int (length enc)" by simp
    show "0 \<le> ?i2" by simp
    show "?p < 2 ^ 63" using r lenW by simp
    show "?p \<le> int (length ?W)" using lenW by simp
    show "om_Unmarshal c (ObjectMeta m0) (slice ?W ?i2 ?p) = Inr om" using um a4 by simp
  qed
  have b1: "varint_loop ?W ?p 0 0 = (Inr (0x12, ?j1) :: 'e pb_error + (uint64 \<times> int))"
    using varint_loop_at [where ?'a = 'e, of "0xa # ?ve @ enc" "0x12" "?vh @ h"]
    by (simp add: W varint_bytes_tag2 ac_simps)
  have b2: "varint_loop ?W ?j1 0 0 = (Inr (of_nat (length h), ?j2) :: 'e pb_error + (uint64 \<times> int))"
    using varint_loop_at [where ?'a = 'e, of "0xa # ?ve @ enc @ [0x12]" "of_nat (length h)" h]
    by (simp add: W ac_simps)
  have b3: "sint (of_nat (length h) :: uint64) = int (length h)"
    using sint_of_nat_len [OF lh] by simp
  have b4: "slice ?W ?j2 (?j2 + int (length h)) = h"
    using slice_append [of "0xa # ?ve @ enc @ 0x12 # ?vh" h "[]"] by (simp add: W ac_simps)
  have step2: "Unmarshal_loop c (m0\<lparr>ObjectMeta := om\<rparr>) ?W ?p =
      Unmarshal_loop c (m0\<lparr>ObjectMeta := om, Handler := slice ?W ?j2 (?j2 + int (length h))\<rparr>) ?W
        (?j2 + int (length h))"
  proof (rule Unmarshal_loop_field2 [OF _ b1 b2 b3])
    show "?p < int (length ?W)" using lenW by simp
    show "0 \<le> int (length h)" by simp
    show "0 \<le> ?j2" by simp
    show "?j2 + int (length h) < 2 ^ 63" using r lenW by simp
    show "?j2 + int (length h) \<le> int (length ?W)" using lenW by simp
  qed
  have "Unmarshal_loop c m0 ?W 0 =
      Unmarshal_loop c (m0\<lparr>ObjectMeta := om, Handler := h\<rparr>) ?W (int (length ?W))"
    using step1 step2 by (simp only: b4 lenW)
  then show ?thesis
    by (simp only: RuntimeClass_Unmarshal_def Unmarshal_loop_end)
qed

subsection \<open>Claim C10\<close>

definition handler_runc :: "byte list" where
  "handler_runc = replicate 200 0x61"

definition example_class :: "byte list RuntimeClass" where
  "example_class = \<lparr>ObjectMeta = [1, 2, 3], Handler = handler_runc\<rparr>"

definition zero_class :: "byte list RuntimeClass" where
  "zero_class = \<lparr>ObjectMeta = [], Handler = []\<rparr>"

lemma raw_meta_marshals: "om_marshals raw_meta om om"
  by (simp add: om_marshals_def raw_meta_def)

lemma varint_bytes_3: "varint_bytes 3 = [3]"
  by (subst varint_bytes.simps) simp

lemma varint_bytes_200: "varint_bytes 200 = [0xc8, 1]"
proof -
  have "varint_bytes 1 = [1]"
    by (subst varint_bytes.simps) (simp add: word_le_nat_alt)
  then show ?thesis by (subst varint_bytes.simps) simp
qed

lemma wire_bytes_example:
  "wire_bytes [1, 2, 3] handler_runc = [0xa, 3, 1, 2, 3, 0x12, 0xc8, 1] @ handler_runc"
  by (simp add: wire_bytes_def varint_bytes_3) (simp add: handler_runc_def varint_bytes_200)

text \<open>
  Claim C10. Let \<open>enc\<close> be the encoding of \<open>m.ObjectMeta\<close>, written by ObjectMeta's own
  sized-buffer marshaller (\<open>om_marshals\<close>), and let the whole message fit a Go slice
  (fewer than \<open>2^63\<close> bytes). Then \<open>Marshal\<close> returns the bytes \<open>wire_bytes enc m.Handler\<close>
  with no error, their number is \<open>m.Size()\<close>, and \<open>Unmarshal\<close> of these bytes on a
  receiver \<open>m0\<close> returns, with no error, \<open>m0\<close> with \<open>Handler\<close> set to \<open>m.Handler\<close> and
  \<open>ObjectMeta\<close> set to what ObjectMeta's own \<open>Unmarshal\<close> makes of \<open>enc\<close>. In
  particular, where ObjectMeta's \<open>Unmarshal\<close> gives back \<open>m.ObjectMeta\<close>, unmarshalling
  the marshalled bytes gives back \<open>m\<close>: the pair is a round trip.
\<close>

theorem RuntimeClass_Marshal_Unmarshal:
  fixes c :: "('om, 'e) ObjectMeta_methods" and m m0 :: "'om RuntimeClass"
  assumes "om_marshals c (ObjectMeta m) enc"
    and "om_Unmarshal c (ObjectMeta m0) enc = Inr om"
    and "length (wire_bytes enc (Handler m)) < 2 ^ 63"
  shows "RuntimeClass_Marshal c m = Inr (wire_bytes enc (Handler m))
    \<and> int (length (wire_bytes enc (Handler m))) = RuntimeClass_Size c m
    \<and> RuntimeClass_Unmarshal c m0 (wire_bytes enc (Handler m)) =
        Some (Inr (m0\<lparr>ObjectMeta := om, Handler := Handler m\<rparr>))
    \<and> (om = ObjectMeta m \<longrightarrow>
        RuntimeClass_Unmarshal c m0 (wire_bytes enc (Handler m)) = Some (Inr m))"
proof -
  have a: "RuntimeClass_Marshal c m = Inr (wire_bytes enc (Handler m))"
    using assms(1,3) by (rule RuntimeClass_Marshal_wire)
  have b: "int (length (wire_bytes enc (Handler m))) = RuntimeClass_Size c m"
    using RuntimeClass_Size_wire [OF assms(1,3)] by simp
  have d: "RuntimeClass_Unmarshal c m0 (wire_bytes enc (Handler m)) =
      Some (Inr (m0\<lparr>ObjectMeta := om, Handler := Handler m\<rparr>))"
    using assms(2,3) by (rule RuntimeClass_Unmarshal_wire)
  have "m0\<lparr>ObjectMeta := ObjectMeta m, Handler := Handler m\<rparr> = m"
    by simp
  with a b d show ?thesis by simp
qed

text \<open>
  The theorem at a class whose handler has 200 bytes, so that its length takes two
  varint bytes, with the stand-in ObjectMeta codec \<open>raw_meta\<close>.
\<close>

theorem RuntimeClass_Marshal_Unmarshal_witness:
  "RuntimeClass_Marshal raw_meta example_class =
     Inr ([0xa, 3, 1, 2, 3, 0x12, 0xc8, 1] @ handler_runc)
   \<and> RuntimeClass_Size raw_meta example_class = 208
   \<and> RuntimeClass_Unmarshal raw_meta zero_class ([0xa, 3, 1, 2, 3, 0x12, 0xc8, 1] @ handler_runc) =
       Some (Inr example_class)"
proof -
  have h1: "om_marshals raw_meta (ObjectMeta example_class) [1, 2, 3]"
    using raw_meta_marshals [of "[1, 2, 3]"] by (simp add: example_class_def)
  have h2: "om_Unmarshal raw_meta (ObjectMeta zero_class) [1, 2, 3] = Inr [1, 2, 3]"
    by (simp add: raw_meta_def)
  have h3: "length (wire_bytes [1, 2, 3] (Handler example_class)) < 2 ^ 63"
    by (simp add: example_class_def wire_bytes_example) (simp add: handler_runc_def)
  have len: "int (length (wire_bytes [1, 2, 3] (Handler example_class))) = 208"
    by (simp add: example_class_def wire_bytes_example) (simp add: handler_runc_def)
  have r: "zero_class\<lparr>ObjectMeta := [1, 2, 3], Handler := Handler example_class\<rparr> = example_class"
    by (simp add: zero_class_def example_class_def)
  from RuntimeClass_Marshal_Unmarshal [OF h1 h2 h3] len r show ?thesis
    by (simp add: example_class_def wire_bytes_example)
qed

end
